theory Spec2Isabelle
  imports Main "HOL-Library.Word" "HOL-Library.AList" "HOL-Library.Multiset"
begin

unbundle bit_operations_syntax

section \<open>The sharded map of \<open>concurrent.go\<close>, run by one goroutine\<close>

text \<open>
  The embedding follows \<open>concurrent.go\<close> function by function. One goroutine runs the
  calls one after the other: a call starts when the previous one has returned. The store
  behind the pointer \<open>m\<close> is passed in and handed back updated. Every panic of the
  source, and every panic of the runtime the source can reach (an index outside the
  slice, a remainder by zero, a write to a nil map, a lock that is never granted), is a
  value of type \<open>panic\<close>, returned as \<open>Inl\<close>.

  Go's \<open>int\<close> and \<open>uint64\<close> are 64-bit words; \<open>int\<close> is read with \<open>sint\<close>, and the
  conversions \<open>uint64(x)\<close> and \<open>int(x)\<close> keep the bits. The memory a slice of
  \<open>numShards\<close> shards needs is not modelled.
\<close>

type_synonym go_int = "64 word"
type_synonym uint64 = "64 word"
type_synonym byte = "8 word"

datatype panic =
    NumShardsTooSmall
  | DivideByZero
  | IndexOutOfRange
  | NilMapAssign
  | LockNeverGranted
  | UnlockOfUnlocked

subsection \<open>\<open>sync.RWMutex\<close>, as one goroutine sees it\<close>

text \<open>
  The zero value is unlocked. \<open>RLocked n\<close> is held by \<open>n\<close> readers. With no other
  goroutine to release it, a \<open>Lock\<close> or \<open>RLock\<close> that has to wait waits forever; an
  unlock of a mutex that is not locked is a fatal error of the runtime.
\<close>

datatype rwmutex = Unlocked | RLocked nat | Locked

fun RLock :: "rwmutex \<Rightarrow> panic + rwmutex" where
  "RLock Unlocked = Inr (RLocked 1)"
| "RLock (RLocked n) = Inr (RLocked (Suc n))"
| "RLock Locked = Inl LockNeverGranted"

fun RUnlock :: "rwmutex \<Rightarrow> panic + rwmutex" where
  "RUnlock (RLocked (Suc 0)) = Inr Unlocked"
| "RUnlock (RLocked (Suc (Suc n))) = Inr (RLocked (Suc n))"
| "RUnlock _ = Inl UnlockOfUnlocked"

fun Lock :: "rwmutex \<Rightarrow> panic + rwmutex" where
  "Lock Unlocked = Inr Locked"
| "Lock _ = Inl LockNeverGranted"

fun Unlock :: "rwmutex \<Rightarrow> panic + rwmutex" where
  "Unlock Locked = Inr Unlocked"
| "Unlock _ = Inl UnlockOfUnlocked"

subsection \<open>Go's built-in map\<close>

text \<open>
  A \<open>map[K]V\<close> is \<open>None\<close> when nil and otherwise an association list with one entry per
  key. Reading a nil map finds nothing, \<open>delete\<close> on it does nothing, and assigning into
  it panics. The order in which \<open>range\<close> visits the keys is not specified by the
  language: it is the parameter \<open>range_order\<close>, applied to the keys of the map.
\<close>

type_synonym ('k, 'v) gomap = "('k \<times> 'v) list option"

definition map_index :: "'v \<Rightarrow> ('k, 'v) gomap \<Rightarrow> 'k \<Rightarrow> 'v \<times> bool" where
  "map_index zero d key =
     (case d of
        None \<Rightarrow> (zero, False)
      | Some al \<Rightarrow> (case map_of al key of None \<Rightarrow> (zero, False) | Some v \<Rightarrow> (v, True)))"

definition map_assign :: "('k, 'v) gomap \<Rightarrow> 'k \<Rightarrow> 'v \<Rightarrow> panic + ('k, 'v) gomap" where
  "map_assign d key v =
     (case d of None \<Rightarrow> Inl NilMapAssign | Some al \<Rightarrow> Inr (Some (AList.update key v al)))"

definition map_delete :: "('k, 'v) gomap \<Rightarrow> 'k \<Rightarrow> ('k, 'v) gomap" where
  "map_delete d key = (case d of None \<Rightarrow> None | Some al \<Rightarrow> Some (AList.delete key al))"

definition map_len :: "('k, 'v) gomap \<Rightarrow> nat" where
  "map_len d = (case d of None \<Rightarrow> 0 | Some al \<Rightarrow> length al)"

definition map_range :: "('k list \<Rightarrow> 'k list) \<Rightarrow> ('k, 'v) gomap \<Rightarrow> 'k list" where
  "map_range range_order d = (case d of None \<Rightarrow> [] | Some al \<Rightarrow> range_order (map fst al))"

subsection \<open>The types \<open>shard\<close> and \<open>ShardedMap\<close>\<close>

record ('k, 'v) shard =
  mu :: rwmutex
  data :: "('k, 'v) gomap"

record ('k, 'v) ShardedMap =
  shards :: "('k, 'v) shard list"
  numShards :: go_int

text \<open>\<open>m.shards[i]\<close>, read and written: the index is an \<open>int\<close>, and the runtime panics
  when it is negative or not below the length of the slice.\<close>

definition in_range :: "'a list \<Rightarrow> go_int \<Rightarrow> bool" where
  "in_range xs i \<longleftrightarrow> 0 \<le> sint i \<and> nat (sint i) < length xs"

definition shard_at :: "('k, 'v) ShardedMap \<Rightarrow> go_int \<Rightarrow> panic + ('k, 'v) shard" where
  "shard_at m i =
     (if in_range (shards m) i then Inr (shards m ! nat (sint i)) else Inl IndexOutOfRange)"

definition set_shard ::
  "('k, 'v) ShardedMap \<Rightarrow> go_int \<Rightarrow> ('k, 'v) shard \<Rightarrow> panic + ('k, 'v) ShardedMap" where
  "set_shard m i s =
     (if in_range (shards m) i then Inr (m\<lparr>shards := (shards m)[nat (sint i) := s]\<rparr>)
      else Inl IndexOutOfRange)"

text \<open>\<open>m.shards[i].mu.f()\<close> for \<open>f\<close> one of the four lock operations.\<close>

definition shard_mu ::
  "(rwmutex \<Rightarrow> panic + rwmutex) \<Rightarrow> ('k, 'v) ShardedMap \<Rightarrow> go_int \<Rightarrow> panic + ('k, 'v) ShardedMap"
  where
  "shard_mu f m i =
     (case shard_at m i of
        Inl e \<Rightarrow> Inl e
      | Inr s \<Rightarrow> (case f (mu s) of Inl e \<Rightarrow> Inl e | Inr l \<Rightarrow> set_shard m i (s\<lparr>mu := l\<rparr>)))"

subsection \<open>\<open>NewShardedMap\<close>\<close>

lemma sint_succ_less:
  fixes i n :: go_int
  assumes "i <s n"
  shows "sint (i + 1) = sint i + 1"
proof -
  have "sint i < sint n" using assms by (simp add: word_sless_alt)
  moreover have "sint n < 2 ^ 63" using sint_lt [of n] by simp
  moreover have "- (2 ^ 63) \<le> sint i" using sint_ge [of i] by simp
  ultimately have "signed_take_bit 63 (sint i + 1) = sint i + 1"
    by (simp add: signed_take_bit_int_eq_self)
  then show ?thesis by (simp add: sint_word_ariths)
qed

text \<open>The loop \<open>for i := 0; i < numShards; i++ { m.shards[i] = shard{data: make(map[K]V)} }\<close>.\<close>

function NewShardedMap_loop ::
  "go_int \<Rightarrow> go_int \<Rightarrow> ('k, 'v) ShardedMap \<Rightarrow> panic + ('k, 'v) ShardedMap" where
  "NewShardedMap_loop i n m =
     (if i <s n then
        (case set_shard m i \<lparr>mu = Unlocked, data = Some []\<rparr> of
           Inl e \<Rightarrow> Inl e
         | Inr m' \<Rightarrow> NewShardedMap_loop (i + 1) n m')
      else Inr m)"
  by pat_completeness auto
termination
  by (relation "measure (\<lambda>(i, n, m). nat (sint n - sint i))")
     (auto simp: sint_succ_less word_sless_alt)

text \<open>\<open>make([]shard[K, V], numShards)\<close> holds zero shards: an unlocked mutex and a nil map.\<close>

definition NewShardedMap :: "go_int \<Rightarrow> panic + ('k, 'v) ShardedMap" where
  "NewShardedMap n =
     (if n <s 1 then Inl NumShardsTooSmall
      else NewShardedMap_loop 0 n
             \<lparr>shards = replicate (nat (sint n)) \<lparr>mu = Unlocked, data = None\<rparr>, numShards = n\<rparr>)"

subsection \<open>\<open>hashKey\<close> and \<open>getShard\<close>\<close>

text \<open>
  \<open>hash/fnv\<close>: \<open>New64a\<close> starts from the offset basis, \<open>Write\<close> folds each byte in with
  an exclusive or followed by a multiplication by the prime, \<open>Sum64\<close> reads the state.
  \<open>fmt.Sprintf("%v", key)\<close> is the parameter \<open>sprintf_v\<close>: the bytes of the key's
  default format.
\<close>

definition offset64 :: uint64 where
  "offset64 = 14695981039346656037"

definition prime64 :: uint64 where
  "prime64 = 1099511628211"

fun sum64a_Write :: "uint64 \<Rightarrow> byte list \<Rightarrow> uint64" where
  "sum64a_Write hash [] = hash"
| "sum64a_Write hash (c # cs) = sum64a_Write ((hash XOR ucast c) * prime64) cs"

definition hashKey :: "('k \<Rightarrow> byte list) \<Rightarrow> 'k \<Rightarrow> uint64" where
  "hashKey sprintf_v key = sum64a_Write offset64 (sprintf_v key)"

text \<open>\<open>int(hash % uint64(m.numShards))\<close>; the remainder is unsigned and panics on zero.\<close>

definition getShard :: "('k \<Rightarrow> byte list) \<Rightarrow> ('k, 'v) ShardedMap \<Rightarrow> 'k \<Rightarrow> panic + go_int" where
  "getShard sprintf_v m key =
     (let hash = hashKey sprintf_v key
      in if numShards m = 0 then Inl DivideByZero else Inr (hash mod numShards m))"

text \<open>The format \<open>%v\<close> of a string is the string itself.\<close>

definition sprintf_v_string :: "string \<Rightarrow> byte list" where
  "sprintf_v_string s = map of_char s"

subsection \<open>\<open>Get\<close>, \<open>Set\<close>, \<open>Delete\<close>\<close>

definition Get ::
  "'v \<Rightarrow> ('k \<Rightarrow> byte list) \<Rightarrow> ('k, 'v) ShardedMap \<Rightarrow> 'k
     \<Rightarrow> panic + (('v \<times> bool) \<times> ('k, 'v) ShardedMap)" where
  "Get zero sprintf_v m key =
     (case getShard sprintf_v m key of
        Inl e \<Rightarrow> Inl e
      | Inr shardIndex \<Rightarrow>
     (case shard_mu RLock m shardIndex of
        Inl e \<Rightarrow> Inl e
      | Inr m1 \<Rightarrow>
     (case shard_at m1 shardIndex of
        Inl e \<Rightarrow> Inl e
      | Inr s \<Rightarrow>
     (case shard_mu RUnlock m1 shardIndex of
        Inl e \<Rightarrow> Inl e
      | Inr m2 \<Rightarrow> Inr (map_index zero (data s) key, m2)))))"

definition Set ::
  "('k \<Rightarrow> byte list) \<Rightarrow> ('k, 'v) ShardedMap \<Rightarrow> 'k \<Rightarrow> 'v \<Rightarrow> panic + ('k, 'v) ShardedMap" where
  "Set sprintf_v m key v =
     (case getShard sprintf_v m key of
        Inl e \<Rightarrow> Inl e
      | Inr shardIndex \<Rightarrow>
     (case shard_mu Lock m shardIndex of
        Inl e \<Rightarrow> Inl e
      | Inr m1 \<Rightarrow>
     (case shard_at m1 shardIndex of
        Inl e \<Rightarrow> Inl e
      | Inr s \<Rightarrow>
     (case map_assign (data s) key v of
        Inl e \<Rightarrow> Inl e
      | Inr d \<Rightarrow>
     (case set_shard m1 shardIndex (s\<lparr>data := d\<rparr>) of
        Inl e \<Rightarrow> Inl e
      | Inr m2 \<Rightarrow> shard_mu Unlock m2 shardIndex)))))"

definition Delete ::
  "('k \<Rightarrow> byte list) \<Rightarrow> ('k, 'v) ShardedMap \<Rightarrow> 'k \<Rightarrow> panic + ('k, 'v) ShardedMap" where
  "Delete sprintf_v m key =
     (case getShard sprintf_v m key of
        Inl e \<Rightarrow> Inl e
      | Inr shardIndex \<Rightarrow>
     (case shard_mu Lock m shardIndex of
        Inl e \<Rightarrow> Inl e
      | Inr m1 \<Rightarrow>
     (case shard_at m1 shardIndex of
        Inl e \<Rightarrow> Inl e
      | Inr s \<Rightarrow>
     (case set_shard m1 shardIndex (s\<lparr>data := map_delete (data s) key\<rparr>) of
        Inl e \<Rightarrow> Inl e
      | Inr m2 \<Rightarrow> shard_mu Unlock m2 shardIndex))))"

subsection \<open>\<open>Keys\<close>\<close>

lemma set_shard_numShards: "set_shard m i s = Inr m' \<Longrightarrow> numShards m' = numShards m"
  by (auto simp: set_shard_def split: if_splits)

lemma shard_mu_numShards: "shard_mu f m i = Inr m' \<Longrightarrow> numShards m' = numShards m"
  by (auto simp: shard_mu_def split: sum.splits dest: set_shard_numShards)

text \<open>The first loop adds up the sizes of the shards, each read under its read lock.\<close>

function Keys_count ::
  "go_int \<Rightarrow> nat \<Rightarrow> ('k, 'v) ShardedMap \<Rightarrow> panic + (nat \<times> ('k, 'v) ShardedMap)" where
  "Keys_count i totalLen m =
     (if i <s numShards m then
        (case shard_mu RLock m i of
           Inl e \<Rightarrow> Inl e
         | Inr m1 \<Rightarrow>
        (case shard_at m1 i of
           Inl e \<Rightarrow> Inl e
         | Inr s \<Rightarrow>
        (case shard_mu RUnlock m1 i of
           Inl e \<Rightarrow> Inl e
         | Inr m2 \<Rightarrow> Keys_count (i + 1) (totalLen + map_len (data s)) m2)))
      else Inr (totalLen, m))"
  by pat_completeness auto
termination
  by (relation "measure (\<lambda>(i, totalLen, m). nat (sint (numShards m) - sint i))")
     (auto simp: sint_succ_less word_sless_alt dest!: shard_mu_numShards)

text \<open>The second loop appends the keys of each shard, in the order \<open>range\<close> yields them.\<close>

function Keys_collect ::
  "('k list \<Rightarrow> 'k list) \<Rightarrow> go_int \<Rightarrow> 'k list \<Rightarrow> ('k, 'v) ShardedMap
     \<Rightarrow> panic + ('k list \<times> ('k, 'v) ShardedMap)" where
  "Keys_collect range_order i keys m =
     (if i <s numShards m then
        (case shard_mu RLock m i of
           Inl e \<Rightarrow> Inl e
         | Inr m1 \<Rightarrow>
        (case shard_at m1 i of
           Inl e \<Rightarrow> Inl e
         | Inr s \<Rightarrow>
        (case shard_mu RUnlock m1 i of
           Inl e \<Rightarrow> Inl e
         | Inr m2 \<Rightarrow>
             Keys_collect range_order (i + 1) (keys @ map_range range_order (data s)) m2)))
      else Inr (keys, m))"
  by pat_completeness auto
termination
  by (relation "measure (\<lambda>(range_order, i, keys, m). nat (sint (numShards m) - sint i))")
     (auto simp: sint_succ_less word_sless_alt dest!: shard_mu_numShards)

text \<open>\<open>totalLen\<close> is only the capacity of the result, \<open>make([]K, 0, totalLen)\<close>: a sum of
  lengths, so never negative, and not visible in the slice returned.\<close>

definition Keys ::
  "('k list \<Rightarrow> 'k list) \<Rightarrow> ('k, 'v) ShardedMap \<Rightarrow> panic + ('k list \<times> ('k, 'v) ShardedMap)" where
  "Keys range_order m =
     (case Keys_count 0 0 m of
        Inl e \<Rightarrow> Inl e
      | Inr (totalLen, m1) \<Rightarrow> Keys_collect range_order 0 [] m1)"

subsection \<open>Sequences of calls\<close>

datatype ('k, 'v) op = OpGet 'k | OpSet 'k 'v | OpDelete 'k | OpKeys

datatype ('k, 'v) result = GotValue 'v bool | Returned | GotKeys "'k list"

fun exec ::
  "'v \<Rightarrow> ('k \<Rightarrow> byte list) \<Rightarrow> ('k list \<Rightarrow> 'k list) \<Rightarrow> ('k, 'v) op \<Rightarrow> ('k, 'v) ShardedMap
     \<Rightarrow> panic + (('k, 'v) result \<times> ('k, 'v) ShardedMap)" where
  "exec zero sprintf_v range_order (OpGet key) m =
     (case Get zero sprintf_v m key of
        Inl e \<Rightarrow> Inl e
      | Inr ((v, ok), m') \<Rightarrow> Inr (GotValue v ok, m'))"
| "exec zero sprintf_v range_order (OpSet key v) m =
     (case Set sprintf_v m key v of Inl e \<Rightarrow> Inl e | Inr m' \<Rightarrow> Inr (Returned, m'))"
| "exec zero sprintf_v range_order (OpDelete key) m =
     (case Delete sprintf_v m key of Inl e \<Rightarrow> Inl e | Inr m' \<Rightarrow> Inr (Returned, m'))"
| "exec zero sprintf_v range_order OpKeys m =
     (case Keys range_order m of Inl e \<Rightarrow> Inl e | Inr (ks, m') \<Rightarrow> Inr (GotKeys ks, m'))"

fun run ::
  "'v \<Rightarrow> ('k \<Rightarrow> byte list) \<Rightarrow> ('k list \<Rightarrow> 'k list) \<Rightarrow> ('k, 'v) op list \<Rightarrow> ('k, 'v) ShardedMap
     \<Rightarrow> panic + (('k, 'v) result list \<times> ('k, 'v) ShardedMap)" where
  "run zero sprintf_v range_order [] m = Inr ([], m)"
| "run zero sprintf_v range_order (x # xs) m =
     (case exec zero sprintf_v range_order x m of
        Inl e \<Rightarrow> Inl e
      | Inr (r, m') \<Rightarrow>
          (case run zero sprintf_v range_order xs m' of
             Inl e \<Rightarrow> Inl e
           | Inr (rs, m'') \<Rightarrow> Inr (r # rs, m'')))"

subsection \<open>The words of the properties\<close>

text \<open>The keys a map holds.\<close>

definition map_keys :: "('k, 'v) gomap \<Rightarrow> 'k set" where
  "map_keys d = (case d of None \<Rightarrow> {} | Some al \<Rightarrow> fst ` set al)"






subsection \<open>The map a store stands for\<close>

text \<open>
  \<open>slot\<close> is the index \<open>getShard\<close> computes, as a position in the slice. A store is
  well formed when it has \<open>numShards\<close> shards, at least one, every mutex is unlocked,
  every map is allocated with one entry per key, and every key sits in the shard of its
  slot. \<open>content\<close> reads the store as one map: the entry of a key is its entry in the
  shard of its slot.
\<close>

definition slot :: "('k \<Rightarrow> byte list) \<Rightarrow> go_int \<Rightarrow> 'k \<Rightarrow> nat" where
  "slot sprintf_v n key = nat (sint (hashKey sprintf_v key mod n))"

definition well_formed :: "('k \<Rightarrow> byte list) \<Rightarrow> ('k, 'v) ShardedMap \<Rightarrow> bool" where
  "well_formed sprintf_v m \<longleftrightarrow>
     \<not> numShards m <s 1 \<and> length (shards m) = nat (sint (numShards m)) \<and>
     (\<forall>i < length (shards m).
        mu (shards m ! i) = Unlocked \<and>
        (\<exists>al. data (shards m ! i) = Some al \<and> distinct (map fst al) \<and>
              (\<forall>k \<in> fst ` set al. slot sprintf_v (numShards m) k = i)))"

definition content :: "('k \<Rightarrow> byte list) \<Rightarrow> ('k, 'v) ShardedMap \<Rightarrow> 'k \<rightharpoonup> 'v" where
  "content sprintf_v m key =
     (case data (shards m ! slot sprintf_v (numShards m) key) of
        None \<Rightarrow> None
      | Some al \<Rightarrow> map_of al key)"

text \<open>What the properties ask of the calls, said on one map from keys to values.\<close>

fun spec_step :: "('k, 'v) op \<Rightarrow> ('k \<rightharpoonup> 'v) \<Rightarrow> ('k \<rightharpoonup> 'v)" where
  "spec_step (OpSet key v) f = f(key \<mapsto> v)"
| "spec_step (OpDelete key) f = f(key := None)"
| "spec_step (OpGet key) f = f"
| "spec_step OpKeys f = f"

fun spec_run :: "('k, 'v) op list \<Rightarrow> ('k \<rightharpoonup> 'v) \<Rightarrow> ('k \<rightharpoonup> 'v)" where
  "spec_run [] f = f"
| "spec_run (x # xs) f = spec_run xs (spec_step x f)"

fun spec_answer :: "'v \<Rightarrow> ('k \<rightharpoonup> 'v) \<Rightarrow> ('k, 'v) op \<Rightarrow> ('k, 'v) result \<Rightarrow> bool" where
  "spec_answer zero f (OpGet key) r =
     (r = (case f key of None \<Rightarrow> GotValue zero False | Some v \<Rightarrow> GotValue v True))"
| "spec_answer zero f (OpSet key v) r = (r = Returned)"
| "spec_answer zero f (OpDelete key) r = (r = Returned)"
| "spec_answer zero f OpKeys r = (\<exists>ks. r = GotKeys ks \<and> distinct ks \<and> set ks = dom f)"

fun spec_trace ::
  "'v \<Rightarrow> ('k \<rightharpoonup> 'v) \<Rightarrow> ('k, 'v) op list \<Rightarrow> ('k, 'v) result list \<Rightarrow> bool" where
  "spec_trace zero f [] rs = (rs = [])"
| "spec_trace zero f (x # xs) [] = False"
| "spec_trace zero f (x # xs) (r # rs) =
     (spec_answer zero f x r \<and> spec_trace zero (spec_step x f) xs rs)"

section \<open>Lemmas\<close>

subsection \<open>The shard index\<close>

lemma uint_eq_sint_nonneg:
  fixes n :: go_int
  assumes "0 \<le> sint n"
  shows "uint n = sint n"
proof -
  have "sint n < 2 ^ 64" using sint_lt [of n] by simp
  with assms have "take_bit 64 (sint n) = sint n"
    by (simp add: take_bit_int_eq_self)
  then show ?thesis using uint_sint [of n] by simp
qed

lemma sint_eq_uint_small:
  fixes x :: go_int
  assumes "uint x < 2 ^ 63"
  shows "sint x = uint x"
proof -
  have "- (2 ^ 63) \<le> (0::int)" by simp
  then have "- (2 ^ 63) \<le> uint x" using uint_ge_0 [of x] by linarith
  with assms have "signed_take_bit 63 (uint x) = uint x"
    by (simp add: signed_take_bit_int_eq_self)
  then show ?thesis using sint_uint [of x] by simp
qed

lemma mod_index_bounds:
  fixes h n :: go_int
  assumes "\<not> n <s 1"
  shows "0 \<le> sint (h mod n)" and "sint (h mod n) < sint n"
proof -
  have n1: "1 \<le> sint n" using assms by (simp add: word_sless_alt)
  then have un: "uint n = sint n" by (simp add: uint_eq_sint_nonneg)
  have "uint (h mod n) = uint h mod uint n" by (rule uint_mod_distrib)
  moreover have "uint h mod uint n < uint n" using n1 un by simp
  moreover have "0 \<le> uint h mod uint n" using n1 un by simp
  ultimately have b: "0 \<le> uint (h mod n)" "uint (h mod n) < sint n" using un by simp_all
  moreover have "sint n < 2 ^ 63" using sint_lt [of n] by simp
  ultimately have "sint (h mod n) = uint (h mod n)" by (simp add: sint_eq_uint_small)
  with b show "0 \<le> sint (h mod n)" and "sint (h mod n) < sint n" by simp_all
qed

lemma slot_less: "well_formed sprintf_v m \<Longrightarrow> slot sprintf_v (numShards m) key < length (shards m)"
  using mod_index_bounds [of "numShards m" "hashKey sprintf_v key"]
  by (simp add: well_formed_def slot_def)

lemma wf_nonzero: "well_formed sprintf_v m \<Longrightarrow> numShards m \<noteq> 0"
  by (auto simp: well_formed_def word_sless_alt)

lemma wf_getShard:
  "well_formed sprintf_v m \<Longrightarrow> getShard sprintf_v m key = Inr (hashKey sprintf_v key mod numShards m)"
  by (simp add: getShard_def wf_nonzero)

lemma wf_in_range:
  "well_formed sprintf_v m \<Longrightarrow> in_range (shards m) (hashKey sprintf_v key mod numShards m)"
  using mod_index_bounds [of "numShards m" "hashKey sprintf_v key"] 
  by (simp add: well_formed_def in_range_def)

lemma wf_shard:
  assumes "well_formed sprintf_v m" and "i < length (shards m)"
  obtains al where "shards m ! i = \<lparr>mu = Unlocked, data = Some al\<rparr>"
    and "distinct (map fst al)" and "\<forall>k \<in> fst ` set al. slot sprintf_v (numShards m) k = i"
proof -
  from assms obtain al where "mu (shards m ! i) = Unlocked" "data (shards m ! i) = Some al"
     "distinct (map fst al)" "\<forall>k \<in> fst ` set al. slot sprintf_v (numShards m) k = i"
    unfolding well_formed_def by blast
  moreover then have "shards m ! i = \<lparr>mu = Unlocked, data = Some al\<rparr>" by (cases "shards m ! i") simp
  ultimately show ?thesis using that by blast
qed

lemma wf_Get:
  assumes "well_formed sprintf_v m"
  shows "Get zero sprintf_v m key =
           Inr (map_index zero (data (shards m ! slot sprintf_v (numShards m) key)) key, m)"
proof -
  let ?j = "slot sprintf_v (numShards m) key"
  have j: "?j < length (shards m)" using assms by (rule slot_less)
  from assms j obtain al where s: "shards m ! ?j = \<lparr>mu = Unlocked, data = Some al\<rparr>"
    by (rule wf_shard)
  have "(shards m)[?j := shards m ! ?j] = shards m" by simp
  with s have upd: "(shards m)[?j := \<lparr>mu = Unlocked, data = Some al\<rparr>] = shards m" by simp
  show ?thesis using j s upd wf_in_range [OF assms, of key]
    by (simp add: Get_def wf_getShard [OF assms] shard_mu_def shard_at_def set_shard_def
         in_range_def slot_def [symmetric])
qed


lemma wf_Set:
  assumes "well_formed sprintf_v m"
  shows "Set sprintf_v m key v =
           Inr (m\<lparr>shards := (shards m)[slot sprintf_v (numShards m) key :=
                  (shards m ! slot sprintf_v (numShards m) key)
                    \<lparr>data := map_option (AList.update key v)
                               (data (shards m ! slot sprintf_v (numShards m) key))\<rparr>]\<rparr>)"
proof -
  let ?j = "slot sprintf_v (numShards m) key"
  have j: "?j < length (shards m)" using assms by (rule slot_less)
  from assms j obtain al where s: "shards m ! ?j = \<lparr>mu = Unlocked, data = Some al\<rparr>"
    by (rule wf_shard)
  show ?thesis using j s wf_in_range [OF assms, of key]
    by (simp add: Set_def wf_getShard [OF assms] shard_mu_def shard_at_def set_shard_def
         in_range_def map_assign_def slot_def [symmetric])
qed

lemma wf_Delete:
  assumes "well_formed sprintf_v m"
  shows "Delete sprintf_v m key =
           Inr (m\<lparr>shards := (shards m)[slot sprintf_v (numShards m) key :=
                  (shards m ! slot sprintf_v (numShards m) key)
                    \<lparr>data := map_delete
                               (data (shards m ! slot sprintf_v (numShards m) key)) key\<rparr>]\<rparr>)"
proof -
  let ?j = "slot sprintf_v (numShards m) key"
  have j: "?j < length (shards m)" using assms by (rule slot_less)
  from assms j obtain al where s: "shards m ! ?j = \<lparr>mu = Unlocked, data = Some al\<rparr>"
    by (rule wf_shard)
  show ?thesis using j s wf_in_range [OF assms, of key]
    by (simp add: Delete_def wf_getShard [OF assms] shard_mu_def shard_at_def set_shard_def
         in_range_def map_delete_def slot_def [symmetric])
qed

text \<open>One pass of either loop of \<open>Keys\<close> takes the read lock of shard \<open>i\<close> and gives it back.\<close>

lemma wf_read_locked:
  assumes "well_formed sprintf_v m" and "0 \<le> sint i" and "i <s numShards m"
  shows "\<exists>m1 s. shard_mu RLock m i = Inr m1 \<and> shard_at m1 i = Inr s \<and>
           data s = data (shards m ! nat (sint i)) \<and> shard_mu RUnlock m1 i = Inr m"
proof -
  let ?j = "nat (sint i)"
  have j: "?j < length (shards m)"
    using assms by (simp add: well_formed_def word_sless_alt)
  from assms(1) j obtain al where s: "shards m ! ?j = \<lparr>mu = Unlocked, data = Some al\<rparr>"
    by (rule wf_shard)
  have "(shards m)[?j := shards m ! ?j] = shards m" by simp
  with s have upd: "(shards m)[?j := \<lparr>mu = Unlocked, data = Some al\<rparr>] = shards m" by simp
  show ?thesis using j s upd assms(2)
    by (simp add: shard_mu_def shard_at_def set_shard_def in_range_def)
qed

lemma wf_Keys_count_step:
  assumes "well_formed sprintf_v m" and "0 \<le> sint i" and "i <s numShards m"
  shows "Keys_count i totalLen m =
           Keys_count (i + 1) (totalLen + map_len (data (shards m ! nat (sint i)))) m"
proof -
  from wf_read_locked [OF assms] obtain m1 s where
    "shard_mu RLock m i = Inr m1" "shard_at m1 i = Inr s"
    "data s = data (shards m ! nat (sint i))" "shard_mu RUnlock m1 i = Inr m" by blast
  then show ?thesis using assms(3) by (subst Keys_count.simps) simp
qed

lemma wf_Keys_collect_step:
  assumes "well_formed sprintf_v m" and "0 \<le> sint i" and "i <s numShards m"
  shows "Keys_collect range_order i keys m =
           Keys_collect range_order (i + 1)
             (keys @ map_range range_order (data (shards m ! nat (sint i)))) m"
proof -
  from wf_read_locked [OF assms] obtain m1 s where
    "shard_mu RLock m i = Inr m1" "shard_at m1 i = Inr s"
    "data s = data (shards m ! nat (sint i))" "shard_mu RUnlock m1 i = Inr m" by blast
  then show ?thesis using assms(3) by (subst Keys_collect.simps) simp
qed

lemma wf_Keys_count:
  assumes "well_formed sprintf_v m"
  shows "0 \<le> sint i \<Longrightarrow> sint i \<le> sint (numShards m) \<Longrightarrow> nat (sint (numShards m) - sint i) = d
           \<Longrightarrow> \<exists>t. Keys_count i totalLen m = Inr (t, m)"
proof (induction d arbitrary: i totalLen)
  case 0
  then have "\<not> i <s numShards m" by (simp add: word_sless_alt)
  then show ?case by (subst Keys_count.simps) simp
next
  case (Suc d)
  then have less: "i <s numShards m" by (simp add: word_sless_alt)
  then have succ: "sint (i + 1) = sint i + 1" by (rule sint_succ_less)
  have "\<exists>t. Keys_count (i + 1) (totalLen + map_len (data (shards m ! nat (sint i)))) m = Inr (t, m)"
    using Suc.prems less succ by (intro Suc.IH) (simp_all add: word_sless_alt)
  then show ?case using wf_Keys_count_step [OF assms Suc.prems(1) less] by simp
qed

lemma wf_Keys_collect:
  assumes "well_formed sprintf_v m"
  shows "0 \<le> sint i \<Longrightarrow> sint i \<le> sint (numShards m) \<Longrightarrow> nat (sint (numShards m) - sint i) = d
           \<Longrightarrow> Keys_collect range_order i keys m =
                 Inr (keys @ concat (map (\<lambda>s. map_range range_order (data s))
                                      (drop (nat (sint i)) (shards m))), m)"
proof (induction d arbitrary: i keys)
  case 0
  then have "\<not> i <s numShards m" and "length (shards m) \<le> nat (sint i)"
    using assms by (simp_all add: word_sless_alt well_formed_def)
  then show ?case by (subst Keys_collect.simps) simp
next
  case (Suc d)
  then have less: "i <s numShards m" by (simp add: word_sless_alt)
  then have succ: "sint (i + 1) = sint i + 1" by (rule sint_succ_less)
  have j: "nat (sint i) < length (shards m)"
    using assms Suc.prems less by (simp add: well_formed_def word_sless_alt)
  have nat_succ: "nat (sint i + 1) = Suc (nat (sint i))" using Suc.prems(1) by simp
  have "Keys_collect range_order (i + 1)
          (keys @ map_range range_order (data (shards m ! nat (sint i)))) m =
        Inr ((keys @ map_range range_order (data (shards m ! nat (sint i)))) @
             concat (map (\<lambda>s. map_range range_order (data s))
                       (drop (nat (sint (i + 1))) (shards m))), m)"
    using Suc.prems less succ by (intro Suc.IH) (simp_all add: word_sless_alt)
  then show ?case
    using wf_Keys_collect_step [OF assms Suc.prems(1) less] j
    by (simp add: succ nat_succ Cons_nth_drop_Suc [symmetric])
qed

lemma wf_Keys:
  assumes "well_formed sprintf_v m"
  shows "Keys range_order m =
           Inr (concat (map (\<lambda>s. map_range range_order (data s)) (shards m)), m)"
proof -
  have n: "0 \<le> sint (numShards m)" using assms by (simp add: well_formed_def word_sless_alt)
  obtain t where "Keys_count 0 0 m = Inr (t, m)"
    using wf_Keys_count [OF assms, of 0 "nat (sint (numShards m))" 0] n by auto
  moreover have "Keys_collect range_order 0 [] m =
      Inr ([] @ concat (map (\<lambda>s. map_range range_order (data s)) (drop (nat (sint (0::go_int))) (shards m))), m)"
    using n by (intro wf_Keys_collect [OF assms]) simp_all
  ultimately show ?thesis by (simp add: Keys_def)
qed

lemma NewShardedMap_loop_fills:
  "0 \<le> sint i \<Longrightarrow> sint i \<le> sint n \<Longrightarrow> length (shards m) = nat (sint n)
     \<Longrightarrow> nat (sint n - sint i) = d
     \<Longrightarrow> NewShardedMap_loop i n m =
           Inr (m\<lparr>shards := take (nat (sint i)) (shards m) @ replicate d \<lparr>mu = Unlocked, data = Some []\<rparr>\<rparr>)"
proof (induction d arbitrary: i m)
  case 0
  then have "\<not> i <s n" and "length (shards m) \<le> nat (sint i)"
    by (simp_all add: word_sless_alt)
  then show ?case by (subst NewShardedMap_loop.simps) simp
next
  case (Suc d)
  let ?j = "nat (sint i)"
  let ?m' = "m\<lparr>shards := (shards m)[?j := \<lparr>mu = Unlocked, data = Some []\<rparr>]\<rparr>"
  from Suc.prems have less: "i <s n" by (simp add: word_sless_alt)
  then have succ: "sint (i + 1) = sint i + 1" by (rule sint_succ_less)
  have j: "?j < length (shards m)" using Suc.prems less by (simp add: word_sless_alt)
  have nat_succ: "nat (sint i + 1) = Suc ?j" using Suc.prems(1) by simp
  have step: "set_shard m i \<lparr>mu = Unlocked, data = Some []\<rparr> = Inr ?m'"
    using j Suc.prems(1) by (simp add: set_shard_def in_range_def)
  have "NewShardedMap_loop (i + 1) n ?m' =
          Inr (?m'\<lparr>shards := take (nat (sint (i + 1))) (shards ?m') @
                              replicate d \<lparr>mu = Unlocked, data = Some []\<rparr>\<rparr>)"
    using Suc.prems less succ by (intro Suc.IH) (simp_all add: word_sless_alt)
  moreover have "take (Suc ?j) ((shards m)[?j := \<lparr>mu = Unlocked, data = Some []\<rparr>]) =
                 take ?j (shards m) @ [\<lparr>mu = Unlocked, data = Some []\<rparr>]"
    using j by (simp add: take_Suc_conv_app_nth)
  ultimately show ?case using step less
    by (subst NewShardedMap_loop.simps) (simp add: succ nat_succ replicate_app_Cons_same)
qed

lemma NewShardedMap_ok:
  assumes "\<not> n <s 1"
  shows "NewShardedMap n =
           Inr \<lparr>shards = replicate (nat (sint n)) \<lparr>mu = Unlocked, data = Some []\<rparr>, numShards = n\<rparr>"
proof -
  let ?m = "\<lparr>shards = replicate (nat (sint n)) \<lparr>mu = Unlocked, data = None\<rparr>, numShards = n\<rparr>
             :: ('k, 'v) ShardedMap"
  have "0 \<le> sint n" using assms by (simp add: word_sless_alt)
  then have "NewShardedMap_loop 0 n ?m =
      Inr (?m\<lparr>shards := take (nat (sint (0::go_int))) (shards ?m) @
                 replicate (nat (sint n)) \<lparr>mu = Unlocked, data = Some []\<rparr>\<rparr>)"
    by (intro NewShardedMap_loop_fills) simp_all
  then show ?thesis using assms
    by (simp add: NewShardedMap_def del: NewShardedMap_loop.simps)
qed

lemma NewShardedMap_Inr_iff:
  "NewShardedMap n = Inr m \<longleftrightarrow>
     \<not> n <s 1 \<and> m = \<lparr>shards = replicate (nat (sint n)) \<lparr>mu = Unlocked, data = Some []\<rparr>, numShards = n\<rparr>"
  using NewShardedMap_ok [of n] by (auto simp: NewShardedMap_def)

lemma wf_New: "NewShardedMap n = Inr m \<Longrightarrow> well_formed sprintf_v m"
  by (auto simp: NewShardedMap_Inr_iff well_formed_def)

lemma content_New: "NewShardedMap n = Inr m \<Longrightarrow> content sprintf_v m = Map.empty"
proof (rule ext)
  fix key
  assume new: "NewShardedMap n = Inr m"
  then have "well_formed sprintf_v m" by (rule wf_New)
  then have "slot sprintf_v (numShards m) key < length (shards m)" by (rule slot_less)
  then show "content sprintf_v m key = None"
    using new by (simp add: content_def NewShardedMap_Inr_iff)
qed

lemma wf_Get_content:
  assumes "well_formed sprintf_v m"
  shows "Get zero sprintf_v m key =
           Inr ((case content sprintf_v m key of None \<Rightarrow> (zero, False) | Some v \<Rightarrow> (v, True)), m)"
  by (simp add: wf_Get [OF assms] map_index_def content_def split: option.splits)

lemma wf_after_Set:
  assumes "well_formed sprintf_v m" and "Set sprintf_v m key v = Inr m'"
  shows "well_formed sprintf_v m'" and "numShards m' = numShards m"
    and "content sprintf_v m' = (content sprintf_v m)(key \<mapsto> v)"
proof -
  let ?j = "slot sprintf_v (numShards m) key"
  have j: "?j < length (shards m)" using assms(1) by (rule slot_less)
  from assms(1) j obtain al where s: "shards m ! ?j = \<lparr>mu = Unlocked, data = Some al\<rparr>"
    and d: "distinct (map fst al)" and p: "\<forall>k \<in> fst ` set al. slot sprintf_v (numShards m) k = ?j"
    by (rule wf_shard)
  have m': "m' = m\<lparr>shards := (shards m)[?j := \<lparr>mu = Unlocked, data = Some (AList.update key v al)\<rparr>]\<rparr>"
    using assms(2) s by (simp add: wf_Set [OF assms(1)])
  show n: "numShards m' = numShards m" by (simp add: m')
  show "well_formed sprintf_v m'"
    unfolding well_formed_def
  proof (intro conjI allI impI)
    show "\<not> numShards m' <s 1" using assms(1) by (simp add: m' well_formed_def)
    show "length (shards m') = nat (sint (numShards m'))" using assms(1) by (simp add: m' well_formed_def)
  next
    fix i assume i: "i < length (shards m')"
    then have i': "i < length (shards m)" by (simp add: m')
    show "mu (shards m' ! i) = Unlocked"
      using assms(1) i' by (cases "i = ?j") (simp_all add: m' well_formed_def)
    show "\<exists>al. data (shards m' ! i) = Some al \<and> distinct (map fst al) \<and>
               (\<forall>k\<in>fst ` set al. slot sprintf_v (numShards m') k = i)"
    proof (cases "i = ?j")
      case True
      have "\<forall>k\<in>fst ` set (AList.update key v al). slot sprintf_v (numShards m) k = ?j"
        using p by (simp add: dom_update)
      then show ?thesis using True j d by (simp add: m' distinct_update)
    next
      case False
      then show ?thesis using assms(1) i' by (simp add: m' well_formed_def)
    qed
  qed
  show "content sprintf_v m' = (content sprintf_v m)(key \<mapsto> v)"
  proof (rule ext)
    fix k
    show "content sprintf_v m' k = ((content sprintf_v m)(key \<mapsto> v)) k"
    proof (cases "slot sprintf_v (numShards m) k = ?j")
      case True
      then show ?thesis using j s by (simp add: content_def m' update_conv')
    next
      case False
      then have "k \<noteq> key" by auto
      then show ?thesis using False by (simp add: content_def m')
    qed
  qed
qed

lemma wf_after_Delete:
  assumes "well_formed sprintf_v m" and "Delete sprintf_v m key = Inr m'"
  shows "well_formed sprintf_v m'" and "numShards m' = numShards m"
    and "content sprintf_v m' = (content sprintf_v m)(key := None)"
proof -
  let ?j = "slot sprintf_v (numShards m) key"
  have j: "?j < length (shards m)" using assms(1) by (rule slot_less)
  from assms(1) j obtain al where s: "shards m ! ?j = \<lparr>mu = Unlocked, data = Some al\<rparr>"
    and d: "distinct (map fst al)" and p: "\<forall>k \<in> fst ` set al. slot sprintf_v (numShards m) k = ?j"
    by (rule wf_shard)
  have m': "m' = m\<lparr>shards := (shards m)[?j := \<lparr>mu = Unlocked, data = Some (AList.delete key al)\<rparr>]\<rparr>"
    using assms(2) s by (simp add: wf_Delete [OF assms(1)] map_delete_def)
  show n: "numShards m' = numShards m" by (simp add: m')
  show "well_formed sprintf_v m'"
    unfolding well_formed_def
  proof (intro conjI allI impI)
    show "\<not> numShards m' <s 1" using assms(1) by (simp add: m' well_formed_def)
    show "length (shards m') = nat (sint (numShards m'))" using assms(1) by (simp add: m' well_formed_def)
  next
    fix i assume i: "i < length (shards m')"
    then have i': "i < length (shards m)" by (simp add: m')
    show "mu (shards m' ! i) = Unlocked"
      using assms(1) i' by (cases "i = ?j") (simp_all add: m' well_formed_def)
    show "\<exists>al. data (shards m' ! i) = Some al \<and> distinct (map fst al) \<and>
               (\<forall>k\<in>fst ` set al. slot sprintf_v (numShards m') k = i)"
    proof (cases "i = ?j")
      case True
      have "fst ` set (AList.delete key al) \<subseteq> fst ` set al" by (rule dom_delete_subset)
      with p have "\<forall>k\<in>fst ` set (AList.delete key al). slot sprintf_v (numShards m) k = ?j"
        by blast
      then show ?thesis using True j d by (simp add: m' distinct_delete)
    next
      case False
      then show ?thesis using assms(1) i' by (simp add: m' well_formed_def)
    qed
  qed
  show "content sprintf_v m' = (content sprintf_v m)(key := None)"
  proof (rule ext)
    fix k
    show "content sprintf_v m' k = ((content sprintf_v m)(key := None)) k"
    proof (cases "slot sprintf_v (numShards m) k = ?j")
      case True
      then show ?thesis using j s by (simp add: content_def m' delete_conv')
    next
      case False
      then have "k \<noteq> key" by auto
      then show ?thesis using False by (simp add: content_def m')
    qed
  qed
qed

lemma set_map_range:
  assumes "\<forall>xs. mset (range_order xs) = mset xs"
  shows "set (map_range range_order d) = map_keys d"
proof (cases d)
  case None
  then show ?thesis by (simp add: map_range_def map_keys_def)
next
  case (Some al)
  have "set (range_order (map fst al)) = set (map fst al)"
    using assms by (intro mset_eq_setD) simp
  then show ?thesis using Some by (simp add: map_range_def map_keys_def)
qed

lemma distinct_map_range:
  assumes "\<forall>xs. mset (range_order xs) = mset xs"
    and "d = Some al" and "distinct (map fst al)"
  shows "distinct (map_range range_order d)"
proof -
  have "distinct (range_order (map fst al)) = distinct (map fst al)"
    using assms(1) by (intro mset_eq_imp_distinct_iff) simp
  then show ?thesis using assms by (simp add: map_range_def)
qed

lemma distinct_concat_placed:
  "(\<forall>i < length xss. distinct (xss ! i) \<and> (\<forall>k \<in> set (xss ! i). f k = off + i))
     \<Longrightarrow> distinct (concat xss)"
proof (induction xss arbitrary: off)
  case Nil
  then show ?case by simp
next
  case (Cons xs xss)
  from Cons.prems have hd: "distinct xs" "\<forall>k \<in> set xs. f k = off" by force+
  have tl: "\<forall>i < length xss. distinct (xss ! i) \<and> (\<forall>k \<in> set (xss ! i). f k = Suc off + i)"
  proof (intro allI impI)
    fix i assume "i < length xss"
    then have "Suc i < length (xs # xss)" by simp
    with Cons.prems have "distinct ((xs # xss) ! Suc i) \<and> (\<forall>k \<in> set ((xs # xss) ! Suc i). f k = off + Suc i)"
      by blast
    then show "distinct (xss ! i) \<and> (\<forall>k \<in> set (xss ! i). f k = Suc off + i)" by simp
  qed
  then have "distinct (concat xss)" by (rule Cons.IH)
  moreover have "set xs \<inter> set (concat xss) = {}"
  proof (rule ccontr)
    assume "set xs \<inter> set (concat xss) \<noteq> {}"
    then obtain k ys where k: "k \<in> set xs" "ys \<in> set xss" "k \<in> set ys" by auto
    then obtain i where "i < length xss" "xss ! i = ys" by (auto simp: in_set_conv_nth)
    with tl k have "f k = Suc off + i" by blast
    moreover from hd k have "f k = off" by blast
    ultimately show False by simp
  qed
  ultimately show ?case using hd by simp
qed

lemma wf_map_keys:
  assumes "well_formed sprintf_v m" and "i < length (shards m)"
  shows "key \<in> map_keys (data (shards m ! i)) \<longleftrightarrow>
           slot sprintf_v (numShards m) key = i \<and> content sprintf_v m key \<noteq> None"
proof -
  from assms obtain al where s: "shards m ! i = \<lparr>mu = Unlocked, data = Some al\<rparr>"
    and p: "\<forall>k \<in> fst ` set al. slot sprintf_v (numShards m) k = i"
    by (rule wf_shard)
  show ?thesis
  proof
    assume "key \<in> map_keys (data (shards m ! i))"
    then have in_al: "key \<in> fst ` set al" using s by (simp add: map_keys_def)
    with p have "slot sprintf_v (numShards m) key = i" by blast
    moreover from in_al have "map_of al key \<noteq> None" by (simp add: map_of_eq_None_iff)
    ultimately show "slot sprintf_v (numShards m) key = i \<and> content sprintf_v m key \<noteq> None"
      using s by (simp add: content_def)
  next
    assume "slot sprintf_v (numShards m) key = i \<and> content sprintf_v m key \<noteq> None"
    then have "map_of al key \<noteq> None" using s by (auto simp: content_def)
    then have "key \<in> fst ` set al" by (simp add: map_of_eq_None_iff)
    then show "key \<in> map_keys (data (shards m ! i))" using s by (simp add: map_keys_def)
  qed
qed

lemma wf_Keys_set:
  assumes "well_formed sprintf_v m" and "\<forall>xs. mset (range_order xs) = mset xs"
  shows "\<exists>ks. Keys range_order m = Inr (ks, m) \<and> distinct ks \<and> set ks = dom (content sprintf_v m)"
proof -
  let ?xss = "map (\<lambda>s. map_range range_order (data s)) (shards m)"
  have "\<forall>i < length ?xss. distinct (?xss ! i) \<and>
          (\<forall>k \<in> set (?xss ! i). slot sprintf_v (numShards m) k = 0 + i)"
  proof (intro allI impI)
    fix i assume "i < length ?xss"
    then have i: "i < length (shards m)" by simp
    from assms(1) i obtain al where s: "shards m ! i = \<lparr>mu = Unlocked, data = Some al\<rparr>"
      and d: "distinct (map fst al)" by (rule wf_shard)
    have "distinct (map_range range_order (data (shards m ! i)))"
      using assms(2) s d by (intro distinct_map_range [where al = al]) simp_all
    moreover have "\<forall>k \<in> set (map_range range_order (data (shards m ! i))).
                     slot sprintf_v (numShards m) k = i"
      using wf_map_keys [OF assms(1) i] by (simp add: set_map_range [OF assms(2)])
    ultimately show "distinct (?xss ! i) \<and>
          (\<forall>k \<in> set (?xss ! i). slot sprintf_v (numShards m) k = 0 + i)"
      using i by simp
  qed
  then have "distinct (concat ?xss)" by (rule distinct_concat_placed)
  moreover have "set (concat ?xss) = dom (content sprintf_v m)"
  proof (intro set_eqI iffI)
    fix key assume "key \<in> set (concat ?xss)"
    then obtain s where "s \<in> set (shards m)" "key \<in> map_keys (data s)"
      by (auto simp: set_map_range [OF assms(2)])
    then obtain i where "i < length (shards m)" "key \<in> map_keys (data (shards m ! i))"
      by (auto simp: in_set_conv_nth)
    then show "key \<in> dom (content sprintf_v m)"
      using wf_map_keys [OF assms(1)] by (auto simp: dom_def)
  next
    fix key assume "key \<in> dom (content sprintf_v m)"
    then have "content sprintf_v m key \<noteq> None" by (simp add: dom_def)
    moreover have j: "slot sprintf_v (numShards m) key < length (shards m)"
      using assms(1) by (rule slot_less)
    ultimately have "key \<in> map_keys (data (shards m ! slot sprintf_v (numShards m) key))"
      using wf_map_keys [OF assms(1) j] by simp
    then have "key \<in> set (map_range range_order (data (shards m ! slot sprintf_v (numShards m) key)))"
      by (simp add: set_map_range [OF assms(2)])
    moreover have "shards m ! slot sprintf_v (numShards m) key \<in> set (shards m)"
      using j by (rule nth_mem)
    ultimately show "key \<in> set (concat ?xss)" by auto
  qed
  ultimately show ?thesis by (simp add: wf_Keys [OF assms(1)])
qed

lemma wf_exec:
  assumes "well_formed sprintf_v m"
  shows "\<exists>r m'. exec zero sprintf_v range_order x m = Inr (r, m') \<and> well_formed sprintf_v m' \<and>
           numShards m' = numShards m \<and>
           content sprintf_v m' = spec_step x (content sprintf_v m) \<and>
           ((\<forall>xs. mset (range_order xs) = mset xs) \<longrightarrow> spec_answer zero (content sprintf_v m) x r)"
proof (cases x)
  case (OpGet key)
  then show ?thesis using assms
    by (simp add: wf_Get_content split: option.splits)
next
  case (OpSet key v)
  obtain m' where m': "Set sprintf_v m key v = Inr m'" by (simp add: wf_Set [OF assms])
  then show ?thesis using OpSet wf_after_Set [OF assms m'] by simp
next
  case (OpDelete key)
  obtain m' where m': "Delete sprintf_v m key = Inr m'" by (simp add: wf_Delete [OF assms])
  then show ?thesis using OpDelete wf_after_Delete [OF assms m'] by simp
next
  case OpKeys
  show ?thesis
  proof (cases "\<forall>xs. mset (range_order xs) = mset xs")
    case True
    from wf_Keys_set [OF assms True] obtain ks where
      "Keys range_order m = Inr (ks, m)" "distinct ks" "set ks = dom (content sprintf_v m)"
      by blast
    then show ?thesis using OpKeys assms by simp
  next
    case False
    then show ?thesis using OpKeys assms by (auto simp: wf_Keys [OF assms])
  qed
qed

lemma wf_run:
  "well_formed sprintf_v m \<Longrightarrow>
     \<exists>rs m'. run zero sprintf_v range_order xs m = Inr (rs, m') \<and> well_formed sprintf_v m' \<and>
       numShards m' = numShards m \<and>
       content sprintf_v m' = spec_run xs (content sprintf_v m) \<and>
       ((\<forall>xs. mset (range_order xs) = mset xs) \<longrightarrow> spec_trace zero (content sprintf_v m) xs rs)"
proof (induction xs arbitrary: m)
  case Nil
  then show ?case by simp
next
  case (Cons x xs)
  from wf_exec [OF Cons.prems, of zero range_order x] obtain r m1 where
    x: "exec zero sprintf_v range_order x m = Inr (r, m1)" "well_formed sprintf_v m1"
       "numShards m1 = numShards m" "content sprintf_v m1 = spec_step x (content sprintf_v m)"
       "(\<forall>xs. mset (range_order xs) = mset xs) \<longrightarrow> spec_answer zero (content sprintf_v m) x r"
    by blast
  from Cons.IH [OF x(2)] obtain rs m' where
    xs: "run zero sprintf_v range_order xs m1 = Inr (rs, m')" "well_formed sprintf_v m'"
       "numShards m' = numShards m1" "content sprintf_v m' = spec_run xs (content sprintf_v m1)"
       "(\<forall>xs. mset (range_order xs) = mset xs) \<longrightarrow> spec_trace zero (content sprintf_v m1) xs rs"
    by blast
  show ?case using x xs by simp
qed


lemma run_from_New:
  assumes "\<not> n <s 1"
  shows "\<exists>m0 rs m. NewShardedMap n = Inr m0 \<and> run zero sprintf_v range_order xs m0 = Inr (rs, m) \<and>
           well_formed sprintf_v m \<and> numShards m = n \<and> content sprintf_v m = spec_run xs Map.empty \<and>
           ((\<forall>xs. mset (range_order xs) = mset xs) \<longrightarrow> spec_trace zero Map.empty xs rs)"
proof -
  obtain m0 :: "('a, 'b) ShardedMap" where m0: "NewShardedMap n = Inr m0"
    using NewShardedMap_ok [OF assms] by blast
  have w: "well_formed sprintf_v m0" using m0 by (rule wf_New)
  have c: "content sprintf_v m0 = Map.empty" using m0 by (rule content_New)
  have n: "numShards m0 = n" using m0 by (simp add: NewShardedMap_Inr_iff)
  from wf_run [OF w, of zero range_order xs] m0 c n show ?thesis by auto
qed

section \<open>The properties\<close>

subsection \<open>Construction\<close>





subsection \<open>Reading and writing one key\<close>

lemma at_least_one: "1 \<le>s n \<longleftrightarrow> \<not> n <s 1"
  by (simp add: word_sle_eq word_sless_alt not_less)







subsection \<open>The keys of the store\<close>




subsection \<open>Deleting and overwriting\<close>

text \<open>
  C5. In every state reached from a new store, \<open>Delete(key)\<close> returns, a second
  \<open>Delete(key)\<close> right after it returns the same store, \<open>Get(key)\<close> then finds nothing,
  and when \<open>Get\<close> found nothing before, the first \<open>Delete(key)\<close> already returned the
  store it was given.
\<close>

theorem Delete_idempotent:
  assumes "1 \<le>s n"
  shows "\<exists>m0 rs m m1.
           NewShardedMap n = Inr m0 \<and>
           run zero sprintf_v range_order xs m0 = Inr (rs, m) \<and>
           Delete sprintf_v m key = Inr m1 \<and>
           Delete sprintf_v m1 key = Inr m1 \<and>
           Get zero sprintf_v m1 key = Inr ((zero, False), m1) \<and>
           ((\<exists>v. Get zero sprintf_v m key = Inr ((v, False), m)) \<longrightarrow> m1 = m)"
proof -
  from assms(1) have "\<not> n <s 1" by (simp add: at_least_one)
  from run_from_New [OF this, of zero sprintf_v range_order xs] obtain m0 rs m where
    new: "NewShardedMap n = Inr m0" "run zero sprintf_v range_order xs m0 = Inr (rs, m)"
    and w: "well_formed sprintf_v m" by blast
  let ?j = "slot sprintf_v (numShards m) key"
  have j: "?j < length (shards m)" using w by (rule slot_less)
  from w j obtain al where s: "shards m ! ?j = \<lparr>mu = Unlocked, data = Some al\<rparr>"
    by (rule wf_shard)
  let ?m1 = "m\<lparr>shards := (shards m)[?j := \<lparr>mu = Unlocked, data = Some (AList.delete key al)\<rparr>]\<rparr>"
  have d1: "Delete sprintf_v m key = Inr ?m1"
    using s by (simp add: wf_Delete [OF w] map_delete_def)
  have w1: "well_formed sprintf_v ?m1"
    and c1: "content sprintf_v ?m1 = (content sprintf_v m)(key := None)"
    using wf_after_Delete [OF w d1] by simp_all
  have d2: "Delete sprintf_v ?m1 key = Inr ?m1"
    using j by (simp add: wf_Delete [OF w1] map_delete_def delete_idem)
  have g: "Get zero sprintf_v ?m1 key = Inr ((zero, False), ?m1)"
    by (simp add: wf_Get_content [OF w1] c1)
  have "?m1 = m" if "\<exists>v. Get zero sprintf_v m key = Inr ((v, False), m)"
  proof -
    from that have "content sprintf_v m key = None"
      by (auto simp: wf_Get_content [OF w] split: option.splits)
    then have "map_of al key = None" using s by (simp add: content_def)
    then have "key \<notin> fst ` set al" by (simp add: map_of_eq_None_iff)
    then have "AList.delete key al = al" by simp
    moreover have "(shards m)[?j := shards m ! ?j] = shards m" by simp
    ultimately show ?thesis using s by simp
  qed
  with new d1 d2 g show ?thesis by blast
qed

text \<open>The theorem at 16 shards: for a key that is present, and for one that is absent.\<close>

theorem Delete_idempotent_witness:
  "1 \<le>s (16 :: go_int) \<and>
   (\<exists>(m0 :: (string, nat) ShardedMap) rs m m1.
      NewShardedMap 16 = Inr m0 \<and>
      run 0 sprintf_v_string id [OpSet ''foo'' 42, OpSet ''bar'' 7] m0 = Inr (rs, m) \<and>
      Get 0 sprintf_v_string m ''foo'' = Inr ((42, True), m) \<and>
      Delete sprintf_v_string m ''foo'' = Inr m1 \<and>
      Delete sprintf_v_string m1 ''foo'' = Inr m1 \<and>
      Get 0 sprintf_v_string m1 ''foo'' = Inr ((0, False), m1)) \<and>
   (\<exists>(m0 :: (string, nat) ShardedMap) rs m.
      NewShardedMap 16 = Inr m0 \<and>
      run 0 sprintf_v_string id [OpSet ''foo'' 42, OpSet ''bar'' 7] m0 = Inr (rs, m) \<and>
      Get 0 sprintf_v_string m ''baz'' = Inr ((0, False), m) \<and>
      Delete sprintf_v_string m ''baz'' = Inr m)"
proof -
  let ?xs = "[OpSet ''foo'' 42, OpSet ''bar'' 7] :: (string, nat) op list"
  have a: "1 \<le>s (16 :: go_int)" by (simp add: word_sle_eq)
  then have "\<not> (16 :: go_int) <s 1" by (simp add: at_least_one)
  from run_from_New [OF this, of 0 sprintf_v_string id ?xs] obtain m0 rs m where
    new: "NewShardedMap 16 = Inr m0" "run 0 sprintf_v_string id ?xs m0 = Inr (rs, m)"
    and w: "well_formed sprintf_v_string m"
    and c: "content sprintf_v_string m = spec_run ?xs Map.empty" by blast
  have foo: "Get 0 sprintf_v_string m ''foo'' = Inr ((42, True), m)"
    and baz: "Get 0 sprintf_v_string m ''baz'' = Inr ((0, False), m)"
    by (simp_all add: wf_Get_content [OF w] c)
  from Delete_idempotent [OF a, of 0 sprintf_v_string id ?xs "''foo''"] new
  obtain m1 where "Delete sprintf_v_string m ''foo'' = Inr m1"
    "Delete sprintf_v_string m1 ''foo'' = Inr m1"
    "Get 0 sprintf_v_string m1 ''foo'' = Inr ((0, False), m1)" by auto
  with new foo have present: "\<exists>(m0 :: (string, nat) ShardedMap) rs m m1.
      NewShardedMap 16 = Inr m0 \<and>
      run 0 sprintf_v_string id ?xs m0 = Inr (rs, m) \<and>
      Get 0 sprintf_v_string m ''foo'' = Inr ((42, True), m) \<and>
      Delete sprintf_v_string m ''foo'' = Inr m1 \<and>
      Delete sprintf_v_string m1 ''foo'' = Inr m1 \<and>
      Get 0 sprintf_v_string m1 ''foo'' = Inr ((0, False), m1)" by blast
  from Delete_idempotent [OF a, of 0 sprintf_v_string id ?xs "''baz''"] new baz
  have "Delete sprintf_v_string m ''baz'' = Inr m" by auto
  with new baz have absent: "\<exists>(m0 :: (string, nat) ShardedMap) rs m.
      NewShardedMap 16 = Inr m0 \<and>
      run 0 sprintf_v_string id ?xs m0 = Inr (rs, m) \<and>
      Get 0 sprintf_v_string m ''baz'' = Inr ((0, False), m) \<and>
      Delete sprintf_v_string m ''baz'' = Inr m" by blast
  from a present absent show ?thesis by blast
qed



subsection \<open>The router\<close>

text \<open>FNV-1a in 64 bits as it is published: from the offset basis, for each byte an
  exclusive or with the byte, then a multiplication by the FNV prime, modulo \<open>2 ^ 64\<close>.\<close>

definition fnv1a_64 :: "byte list \<Rightarrow> uint64" where
  "fnv1a_64 bs = foldl (\<lambda>h b. (h XOR ucast b) * 1099511628211) 14695981039346656037 bs"

lemma sum64a_Write_foldl:
  "sum64a_Write h bs = foldl (\<lambda>h b. (h XOR ucast b) * 1099511628211) h bs"
  by (induction bs arbitrary: h) (simp_all add: prime64_def)

lemma hashKey_fnv1a: "hashKey sprintf_v key = fnv1a_64 (sprintf_v key)"
  by (simp add: hashKey_def fnv1a_64_def sum64a_Write_foldl offset64_def)

lemma mod_one_word: "(h :: go_int) mod 1 = 0"
  by simp

text \<open>
  C7. In every state reached from a store built with \<open>n\<close> shards, \<open>n\<close> at least 1,
  \<open>getShard\<close> returns the 64-bit FNV-1a hash of the key's bytes reduced modulo \<open>n\<close>; the
  index is at least 0 and below \<open>n\<close>, it is inside the slice of shards, it is 0 when
  \<open>n\<close> is 1, and \<open>Get\<close>, \<open>Set\<close> and \<open>Delete\<close> return without a panic.
\<close>

theorem getShard_in_bounds:
  assumes "1 \<le>s n"
  shows "\<exists>m0 rs m g.
           NewShardedMap n = Inr m0 \<and>
           run zero sprintf_v range_order xs m0 = Inr (rs, m) \<and>
           getShard sprintf_v m key = Inr g \<and>
           g = fnv1a_64 (sprintf_v key) mod n \<and>
           0 \<le> sint g \<and> sint g < sint n \<and> in_range (shards m) g \<and>
           (n = 1 \<longrightarrow> g = 0) \<and>
           (\<exists>r. Get zero sprintf_v m key = Inr r) \<and>
           (\<exists>m'. Set sprintf_v m key v = Inr m') \<and>
           (\<exists>m'. Delete sprintf_v m key = Inr m')"
proof -
  from assms(1) have n: "\<not> n <s 1" by (simp add: at_least_one)
  from run_from_New [OF this, of zero sprintf_v range_order xs] obtain m0 rs m where
    new: "NewShardedMap n = Inr m0" "run zero sprintf_v range_order xs m0 = Inr (rs, m)"
    and w: "well_formed sprintf_v m" and nm: "numShards m = n" by blast
  let ?g = "fnv1a_64 (sprintf_v key) mod n"
  have g: "getShard sprintf_v m key = Inr ?g"
    by (simp add: wf_getShard [OF w] nm hashKey_fnv1a)
  have b: "0 \<le> sint ?g" "sint ?g < sint n" using mod_index_bounds [OF n] by simp_all
  have r: "in_range (shards m) ?g"
    using wf_in_range [OF w, of key] by (simp add: nm hashKey_fnv1a)
  have one: "n = 1 \<longrightarrow> ?g = 0" by simp
  have calls: "\<exists>r. Get zero sprintf_v m key = Inr r" "\<exists>m'. Set sprintf_v m key v = Inr m'"
    "\<exists>m'. Delete sprintf_v m key = Inr m'"
    by (simp_all add: wf_Get [OF w] wf_Set [OF w] wf_Delete [OF w])
  have "NewShardedMap n = Inr m0 \<and>
           run zero sprintf_v range_order xs m0 = Inr (rs, m) \<and>
           getShard sprintf_v m key = Inr ?g \<and>
           ?g = fnv1a_64 (sprintf_v key) mod n \<and>
           0 \<le> sint ?g \<and> sint ?g < sint n \<and> in_range (shards m) ?g \<and>
           (n = 1 \<longrightarrow> ?g = 0) \<and>
           (\<exists>r. Get zero sprintf_v m key = Inr r) \<and>
           (\<exists>m'. Set sprintf_v m key v = Inr m') \<and>
           (\<exists>m'. Delete sprintf_v m key = Inr m')"
    using new g b r calls by simp
  then show ?thesis by (intro exI)
qed

text \<open>The theorem at 1 shard and at 16 shards; at 16 the key \<open>a\<close>, whose hash is
  \<open>0xaf63dc4c8601ec8c\<close>, goes to shard 12.\<close>

theorem getShard_in_bounds_witness:
  "1 \<le>s (1 :: go_int) \<and> 1 \<le>s (16 :: go_int) \<and>
   (\<exists>(m0 :: (string, nat) ShardedMap) rs m.
      NewShardedMap 1 = Inr m0 \<and>
      run 0 sprintf_v_string id [OpSet ''a'' 1, OpDelete ''b''] m0 = Inr (rs, m) \<and>
      getShard sprintf_v_string m ''a'' = Inr 0) \<and>
   (\<exists>(m0 :: (string, nat) ShardedMap) rs m.
      NewShardedMap 16 = Inr m0 \<and>
      run 0 sprintf_v_string id [OpSet ''a'' 1, OpDelete ''b''] m0 = Inr (rs, m) \<and>
      getShard sprintf_v_string m ''a'' = Inr 12 \<and> in_range (shards m) 12)"
proof -
  let ?xs = "[OpSet ''a'' 1, OpDelete ''b''] :: (string, nat) op list"
  have a: "1 \<le>s (1 :: go_int)" and b: "1 \<le>s (16 :: go_int)" by (simp_all add: word_sle_eq)
  have h: "fnv1a_64 (sprintf_v_string ''a'') = 0xaf63dc4c8601ec8c"
    by (simp add: fnv1a_64_def sprintf_v_string_def)
  have "(0xaf63dc4c8601ec8c :: go_int) mod 16 = 12" by simp
  with h have g: "fnv1a_64 (sprintf_v_string ''a'') mod 16 = 12" by simp
  have one: "\<exists>(m0 :: (string, nat) ShardedMap) rs m.
      NewShardedMap 1 = Inr m0 \<and> run 0 sprintf_v_string id ?xs m0 = Inr (rs, m) \<and>
      getShard sprintf_v_string m ''a'' = Inr 0"
    using getShard_in_bounds [OF a, of "0 :: nat" sprintf_v_string id ?xs "''a''" 0]
    by (elim exE conjE) simp
  have sixteen: "\<exists>(m0 :: (string, nat) ShardedMap) rs m.
      NewShardedMap 16 = Inr m0 \<and> run 0 sprintf_v_string id ?xs m0 = Inr (rs, m) \<and>
      getShard sprintf_v_string m ''a'' = Inr 12 \<and> in_range (shards m) 12"
    using getShard_in_bounds [OF b, of "0 :: nat" sprintf_v_string id ?xs "''a''" 0]
    by (elim exE conjE) (simp add: g)
  from a b one sixteen show ?thesis by (intro conjI)
qed

subsection \<open>Where the keys are\<close>




subsection \<open>One shard against many\<close>



subsection \<open>The router depends on the key and the shard count only\<close>

text \<open>
  C10. \<open>getShard\<close> gives the same answer on any two stores with the same \<open>numShards\<close>,
  whatever their shards hold; and on a store built with \<open>n\<close> shards, \<open>n\<close> at least 1,
  it gives one and the same index for a key on the new store and after any two
  sequences of calls.
\<close>

theorem getShard_pure:
  "(numShards a = numShards b \<longrightarrow> getShard sprintf_v a key = getShard sprintf_v b key) \<and>
   (1 \<le>s n \<longrightarrow>
      (\<exists>m0 rs1 m1 rs2 m2 g.
         NewShardedMap n = Inr m0 \<and>
         run zero sprintf_v range_order1 xs1 m0 = Inr (rs1, m1) \<and>
         run zero sprintf_v range_order2 xs2 m0 = Inr (rs2, m2) \<and>
         getShard sprintf_v m0 key = Inr g \<and>
         getShard sprintf_v m1 key = Inr g \<and>
         getShard sprintf_v m2 key = Inr g))"
proof (intro conjI impI)
  assume "numShards a = numShards b"
  then show "getShard sprintf_v a key = getShard sprintf_v b key" by (simp add: getShard_def)
next
  assume "1 \<le>s n"
  then have n: "\<not> n <s 1" by (simp add: at_least_one)
  from run_from_New [OF n, of zero sprintf_v range_order1 xs1] obtain m0 rs1 m1 where
    new: "NewShardedMap n = Inr m0" and r1: "run zero sprintf_v range_order1 xs1 m0 = Inr (rs1, m1)"
    and w1: "well_formed sprintf_v m1" and n1: "numShards m1 = n" by blast
  have w0: "well_formed sprintf_v m0" using new by (rule wf_New)
  have n0: "numShards m0 = n" using new by (simp add: NewShardedMap_Inr_iff)
  from wf_run [OF w0, of zero range_order2 xs2] obtain rs2 m2 where
    r2: "run zero sprintf_v range_order2 xs2 m0 = Inr (rs2, m2)"
    and w2: "well_formed sprintf_v m2" and n2: "numShards m2 = numShards m0" by blast
  let ?g = "hashKey sprintf_v key mod n"
  have "NewShardedMap n = Inr m0 \<and>
         run zero sprintf_v range_order1 xs1 m0 = Inr (rs1, m1) \<and>
         run zero sprintf_v range_order2 xs2 m0 = Inr (rs2, m2) \<and>
         getShard sprintf_v m0 key = Inr ?g \<and>
         getShard sprintf_v m1 key = Inr ?g \<and>
         getShard sprintf_v m2 key = Inr ?g"
    using new r1 r2 by (simp add: wf_getShard [OF w0] wf_getShard [OF w1] wf_getShard [OF w2] n0 n1 n2)
  then show "\<exists>m0 rs1 m1 rs2 m2 g.
         NewShardedMap n = Inr m0 \<and>
         run zero sprintf_v range_order1 xs1 m0 = Inr (rs1, m1) \<and>
         run zero sprintf_v range_order2 xs2 m0 = Inr (rs2, m2) \<and>
         getShard sprintf_v m0 key = Inr g \<and>
         getShard sprintf_v m1 key = Inr g \<and>
         getShard sprintf_v m2 key = Inr g" by (intro exI)
qed

text \<open>The theorem on two stores of four shards that differ in everything else, and at
  16 shards on two different histories.\<close>

theorem getShard_pure_witness:
  "numShards \<lparr>shards = [] :: (string, nat) shard list, numShards = 4\<rparr> =
     numShards \<lparr>shards = [\<lparr>mu = Locked, data = Some [(''a'', 1)]\<rparr>] :: (string, nat) shard list,
                numShards = 4\<rparr> \<and>
   getShard sprintf_v_string \<lparr>shards = [] :: (string, nat) shard list, numShards = 4\<rparr> ''a'' =
     getShard sprintf_v_string
       \<lparr>shards = [\<lparr>mu = Locked, data = Some [(''a'', 1)]\<rparr>] :: (string, nat) shard list,
          numShards = 4\<rparr> ''a'' \<and>
   1 \<le>s (16 :: go_int) \<and>
   (\<exists>(m0 :: (string, nat) ShardedMap) rs1 m1 rs2 m2 g.
      NewShardedMap 16 = Inr m0 \<and>
      run 0 sprintf_v_string id [OpSet ''a'' 1, OpKeys] m0 = Inr (rs1, m1) \<and>
      run 0 sprintf_v_string rev [OpSet ''b'' 2, OpDelete ''a'', OpSet ''c'' 3] m0 = Inr (rs2, m2) \<and>
      getShard sprintf_v_string m0 ''a'' = Inr g \<and>
      getShard sprintf_v_string m1 ''a'' = Inr g \<and>
      getShard sprintf_v_string m2 ''a'' = Inr g)"
proof -
  let ?a = "\<lparr>shards = [] :: (string, nat) shard list, numShards = 4\<rparr>"
  let ?b = "\<lparr>shards = [\<lparr>mu = Locked, data = Some [(''a'', 1)]\<rparr>] :: (string, nat) shard list,
             numShards = 4\<rparr>"
  have same: "numShards ?a = numShards ?b" by simp
  have n: "1 \<le>s (16 :: go_int)" by (simp add: word_sle_eq)
  note inst = getShard_pure [of ?a ?b sprintf_v_string "''a''" 16 0 id
      "[OpSet ''a'' 1, OpKeys]" rev "[OpSet ''b'' 2, OpDelete ''a'', OpSet ''c'' 3]"]
  have g: "getShard sprintf_v_string ?a ''a'' = getShard sprintf_v_string ?b ''a''"
    by (rule inst [THEN conjunct1, THEN mp, OF same])
  have e: "\<exists>(m0 :: (string, nat) ShardedMap) rs1 m1 rs2 m2 g.
      NewShardedMap 16 = Inr m0 \<and>
      run 0 sprintf_v_string id [OpSet ''a'' 1, OpKeys] m0 = Inr (rs1, m1) \<and>
      run 0 sprintf_v_string rev [OpSet ''b'' 2, OpDelete ''a'', OpSet ''c'' 3] m0 = Inr (rs2, m2) \<and>
      getShard sprintf_v_string m0 ''a'' = Inr g \<and>
      getShard sprintf_v_string m1 ''a'' = Inr g \<and>
      getShard sprintf_v_string m2 ''a'' = Inr g"
    by (rule inst [THEN conjunct2, THEN mp, OF n])
  from same g n e show ?thesis by (intro conjI)
qed

section \<open>The scenarios of the tests\<close>

text \<open>\<open>TestShardedMap_BasicOperations\<close>: 16 shards, the key \<open>foo\<close> set, read, overwritten,
  read, deleted and read again, the key \<open>bar\<close> read while it is missing.\<close>

lemma scenario_basic_operations:
  "(case NewShardedMap 16 of
      Inl e \<Rightarrow> Inl e
    | Inr m \<Rightarrow>
        map_sum id fst
          (run (0 :: nat) sprintf_v_string id
             [OpSet ''foo'' 42, OpGet ''foo'', OpGet ''bar'', OpSet ''foo'' 100, OpGet ''foo'',
              OpDelete ''foo'', OpGet ''foo''] m)) =
   Inr [Returned, GotValue 42 True, GotValue 0 False, Returned, GotValue 100 True,
        Returned, GotValue 0 False]"
  by code_simp

text \<open>\<open>TestShardedMap_Keys\<close>: 8 shards and five keys; \<open>Keys\<close> returns the five of them,
  shard by shard.\<close>

lemma scenario_keys:
  "(case NewShardedMap 8 of
      Inl e \<Rightarrow> Inl e
    | Inr m \<Rightarrow>
        map_sum id fst
          (run (0 :: nat) sprintf_v_string id
             [OpSet ''a'' 0, OpSet ''b'' 1, OpSet ''c'' 2, OpSet ''d'' 3, OpSet ''e'' 4, OpKeys] m)) =
   Inr [Returned, Returned, Returned, Returned, Returned, GotKeys [''e'', ''c'', ''d'', ''a'', ''b'']]"
  by code_simp

text \<open>Published values of FNV-1a in 64 bits.\<close>

lemma hashKey_test_vectors:
  "hashKey sprintf_v_string '''' = 0xcbf29ce484222325"
  "hashKey sprintf_v_string ''a'' = 0xaf63dc4c8601ec8c"
  "hashKey sprintf_v_string ''foobar'' = 0x85944171f73967e8"
  by code_simp+

end
